theory Spec2Isabelle
  imports Complex_Main "HOL-Library.Word"
begin

unbundle bit_operations_syntax

section \<open>Data model\<close>

text \<open>
  The program is \<^verbatim>\<open>python_serial_reg/serial_reg.py\<close>: a serial front end that encodes
  4-byte register commands, and carves 37-byte telemetry frames and 4-byte command
  responses out of the received byte stream. Python integers are unbounded and are
  modelled as \<^typ>\<open>int\<close>; the elements of a \<^verbatim>\<open>bytearray\<close> are in \<open>0..255\<close> and are
  modelled as 8-bit words, read back as integers with \<^const>\<open>uint\<close> (iterating or indexing
  a \<^verbatim>\<open>bytearray\<close> yields integers).
\<close>

type_synonym byte = "8 word"

datatype error = ValueError | StructError | IndexError

section \<open>CRC-8 (\<^verbatim>\<open>crc8_atm\<close>, lines 19-29)\<close>

text \<open>
  One pass of the inner loop body (lines 24-28): test bit 7, shift left, XOR with
  \<open>0x07\<close> when the bit was set, then mask to eight bits.
\<close>

definition crc8_shift :: "int \<Rightarrow> int" where
  "crc8_shift crc =
     (if crc AND 0x80 \<noteq> 0 then (push_bit 1 crc) XOR 0x07 else push_bit 1 crc) AND 0xFF"

text \<open>\<^verbatim>\<open>for _ in range(n)\<close> around that body.\<close>

primrec crc8_bits :: "nat \<Rightarrow> int \<Rightarrow> int" where
  "crc8_bits 0 crc = crc"
| "crc8_bits (Suc n) crc = crc8_bits n (crc8_shift crc)"

text \<open>\<^verbatim>\<open>for byte in data: crc ^= byte; for _ in range(8): ...\<close>\<close>

primrec crc8_loop :: "int \<Rightarrow> int list \<Rightarrow> int" where
  "crc8_loop crc [] = crc"
| "crc8_loop crc (byte # data) = crc8_loop (crc8_bits 8 (crc XOR byte)) data"

definition crc8_atm :: "int list \<Rightarrow> int" where
  "crc8_atm data = crc8_loop 0x00 data"

subsection \<open>The CRC as the specification words it\<close>

text \<open>
  Written from the specification, section 4.1, on an 8-bit accumulator: polynomial
  \<open>0x07\<close>, initial value \<open>0x00\<close>, most significant bit first, no reflection and no final
  XOR. On an 8-bit word the mask after each shift is the word's own wrap-around.
\<close>

definition spec_shift :: "byte \<Rightarrow> byte" where
  "spec_shift acc = (if bit acc 7 then push_bit 1 acc XOR 0x07 else push_bit 1 acc)"

primrec spec_shifts :: "nat \<Rightarrow> byte \<Rightarrow> byte" where
  "spec_shifts 0 acc = acc"
| "spec_shifts (Suc n) acc = spec_shifts n (spec_shift acc)"

primrec spec_crc8_from :: "byte \<Rightarrow> byte list \<Rightarrow> byte" where
  "spec_crc8_from acc [] = acc"
| "spec_crc8_from acc (b # bs) = spec_crc8_from (spec_shifts 8 (acc XOR b)) bs"

definition spec_crc8 :: "byte list \<Rightarrow> byte" where
  "spec_crc8 bs = spec_crc8_from 0x00 bs"

section \<open>Reading integers from the entry fields\<close>

text \<open>
  \<^verbatim>\<open>_send_frame\<close> reads its two arguments from text fields with \<^verbatim>\<open>str.strip\<close> and the
  built-in \<^verbatim>\<open>int\<close>. Both are modelled on ASCII text: \<open>strip\<close> removes the ASCII
  white space characters at both ends, and \<open>py_int base\<close> accepts an optional sign, for
  base 16 an optional \<^verbatim>\<open>0x\<close> prefix, and digits that may be separated by single
  underscores; anything else raises \<^verbatim>\<open>ValueError\<close>. The limit that recent interpreters
  put on the number of decimal digits is not modelled.
\<close>

definition is_space :: "char \<Rightarrow> bool" where
  "is_space c =
     (let n = (of_char c :: nat) in (9 \<le> n \<and> n \<le> 13) \<or> (28 \<le> n \<and> n \<le> 32))"

definition strip :: "string \<Rightarrow> string" where
  "strip s = rev (dropWhile is_space (rev (dropWhile is_space s)))"

definition digit_value :: "char \<Rightarrow> nat option" where
  "digit_value c =
     (let n = (of_char c :: nat) in
      if 48 \<le> n \<and> n \<le> 57 then Some (n - 48)
      else if 97 \<le> n \<and> n \<le> 122 then Some (n - 87)
      else if 65 \<le> n \<and> n \<le> 90 then Some (n - 55)
      else None)"

fun scan_digits :: "nat \<Rightarrow> int \<Rightarrow> string \<Rightarrow> error + int" where
  "scan_digits base acc [] = Inr acc"
| "scan_digits base acc (c # cs) =
     (if c = CHR ''_'' then
        (case cs of
           [] \<Rightarrow> Inl ValueError
         | d # _ \<Rightarrow> if d = CHR ''_'' then Inl ValueError else scan_digits base acc cs)
      else
        (case digit_value c of
           None \<Rightarrow> Inl ValueError
         | Some v \<Rightarrow>
             if v < base then scan_digits base (acc * int base + int v) cs
             else Inl ValueError))"

definition py_int :: "nat \<Rightarrow> string \<Rightarrow> error + int" where
  "py_int base s =
     (let s1 = strip s;
          negative = (s1 \<noteq> [] \<and> hd s1 = CHR ''-'');
          s2 = (if s1 \<noteq> [] \<and> (hd s1 = CHR ''+'' \<or> hd s1 = CHR ''-'') then tl s1 else s1);
          s3 = (if base = 16 \<and> length s2 \<ge> 2 \<and> s2 ! 0 = CHR ''0''
                   \<and> (s2 ! 1 = CHR ''x'' \<or> s2 ! 1 = CHR ''X'')
                then (let r = drop 2 s2 in if r \<noteq> [] \<and> hd r = CHR ''_'' then tl r else r)
                else s2)
      in if s3 = [] \<or> hd s3 = CHR ''_'' then Inl ValueError
         else (case scan_digits base 0 s3 of
                 Inl e \<Rightarrow> Inl e
               | Inr n \<Rightarrow> Inr (if negative then - n else n)))"

section \<open>The frame encoder (\<^verbatim>\<open>_send_frame\<close>, lines 228-277)\<close>

text \<open>
  \<^verbatim>\<open>bytearray(list)\<close> raises \<^verbatim>\<open>ValueError\<close> when an element is outside \<open>range(256)\<close>.
\<close>

definition bytearray :: "int list \<Rightarrow> error + byte list" where
  "bytearray xs =
     (if list_all (\<lambda>x. 0 \<le> x \<and> x < 256) xs then Inr (map word_of_int xs)
      else Inl ValueError)"

text \<open>
  Lines 235, 238 and 252-264: from the parsed register, the mode switch and the parsed
  data value to the frame that is written to the port. On integers \<open>>>\<close> is the
  arithmetic shift, \<^const>\<open>drop_bit\<close>, and \<open>&\<close>, \<open>|\<close> act on the two's complement
  representation, as \<open>AND\<close> and \<open>OR\<close> on \<^typ>\<open>int\<close> do.
\<close>

definition encode_frame :: "int \<Rightarrow> bool \<Rightarrow> int \<Rightarrow> error + byte list" where
  "encode_frame reg is_read data_val =
     (let addr = reg AND 0x7F;
          hdr = (if is_read then 0x80 else 0x00) OR addr;
          d0 = data_val AND 0xFF;
          d1 = (if is_read then 0 else (drop_bit 8 data_val) AND 0xFF);
          payload = [hdr, d0, d1];
          crc = crc8_atm payload
      in bytearray (payload @ [crc]))"

text \<open>
  The whole method, from the connection flag (\<^verbatim>\<open>self.is_connected and self.ser\<close>),
  the mode switch and the two entry fields. Its three outcomes: the log line \<^verbatim>\<open>Erreur: Non connecte\<close>, the log line
  \<^verbatim>\<open>Erreur: Format invalide\<close> (any \<^verbatim>\<open>ValueError\<close>), or the frame written to the port.
  The slider updates of lines 244-250, the transmit log line and the transport's own
  failures belong to the user interface and the serial driver and are left out.
\<close>

datatype send_outcome = NotConnected | FormatInvalid | Written "byte list"

definition send_frame :: "bool \<Rightarrow> string \<Rightarrow> bool \<Rightarrow> string \<Rightarrow> send_outcome" where
  "send_frame is_connected entry_reg is_read entry_data =
     (if \<not> is_connected then NotConnected
      else
        (case py_int 16 (strip entry_reg) of
           Inl e \<Rightarrow> FormatInvalid
         | Inr reg \<Rightarrow>
             (let data_str = strip entry_data in
              case (if data_str \<noteq> [] then py_int 10 data_str else Inr 0) of
                Inl e \<Rightarrow> FormatInvalid
              | Inr data_val \<Rightarrow>
                  (case encode_frame reg is_read data_val of
                     Inl e \<Rightarrow> FormatInvalid
                   | Inr frame \<Rightarrow> Written frame))))"

section \<open>The receiving side\<close>

text \<open>
  The application state that the receiving thread reads and writes: the accumulator
  \<open>rx_buffer\<close>, the time of the last telemetry display \<open>last_imu_update\<close>, the
  telemetry box \<open>txt_imu\<close> and the log box \<open>txt_log\<close>. Two history variables are added
  for the statements of the properties and influence nothing: \<open>emitted\<close> records every
  packet that the loop hands to a decoder, in order, and \<open>time_calls\<close> counts the calls
  of \<^verbatim>\<open>time.time()\<close>. The clock is a parameter \<open>clock\<close>: its \<open>n\<close>-th reading is
  \<open>clock n\<close>, an exact real number (the rounding of floating-point subtraction is not
  modelled).

  The telemetry box holds the eight displayed values instead of their formatted text. A
  32-bit float is kept as its bit pattern (\<open>F32\<close>): no property below depends on its
  numeric value.
\<close>

datatype frame = ImuFrame "byte list" | CmdFrame "byte list"

datatype field = U8 byte | U32 "32 word" | F32 "32 word"

datatype log_line =
    RxRead int int int int int int
  | DecodeCmdError error

record app =
  rx_buffer :: "byte list"
  last_imu_update :: real
  txt_imu :: "field list"
  txt_log :: "log_line list"
  emitted :: "frame list"
  time_calls :: nat

text \<open>The state after \<^verbatim>\<open>__init__\<close> and a fresh connection (lines 51-52 and 183).\<close>

definition init_app :: app where
  "init_app =
     \<lparr>rx_buffer = [], last_imu_update = 0, txt_imu = [], txt_log = [],
      emitted = [], time_calls = 0\<rparr>"

subsection \<open>Telemetry decoder (\<^verbatim>\<open>_decode_and_show_imu\<close>, lines 403-436)\<close>

text \<open>Little-endian: the first byte is the least significant.\<close>

primrec le32 :: "byte list \<Rightarrow> 32 word" where
  "le32 [] = 0"
| "le32 (b # bs) = ucast b + 256 * le32 bs"

text \<open>
  \<^verbatim>\<open>struct.unpack('<BBBBIf f f f f f f B', packet)\<close>: thirteen values from exactly 37
  bytes, little-endian and unpadded; any other length raises \<^verbatim>\<open>struct.error\<close>.
\<close>

definition struct_unpack :: "byte list \<Rightarrow> error + field list" where
  "struct_unpack packet =
     (if length packet \<noteq> 37 then Inl StructError
      else Inr (map (\<lambda>i. U8 (packet ! i)) [0..<4]
                @ [U32 (le32 (take 4 (drop 4 packet)))]
                @ map (\<lambda>i. F32 (le32 (take 4 (drop (8 + 4 * i) packet)))) [0..<7]
                @ [U8 (packet ! 36)]))"

text \<open>
  The body of the \<^verbatim>\<open>try\<close> block: the exception it ends with, if any, and the state
  it leaves.
\<close>

definition imu_try :: "(nat \<Rightarrow> real) \<Rightarrow> byte list \<Rightarrow> app \<Rightarrow> error option \<times> app" where
  "imu_try clock packet st =
     (let now = clock (time_calls st);
          st0 = st\<lparr>time_calls := Suc (time_calls st)\<rparr>
      in if now - last_imu_update st0 < 0.1 then (None, st0)
         else
           (let st1 = st0\<lparr>last_imu_update := now\<rparr>
            in case struct_unpack packet of
                 Inl e \<Rightarrow> (Some e, st1)
               | Inr unpacked \<Rightarrow>
                   (None, st1\<lparr>txt_imu := map (\<lambda>i. unpacked ! i) [4..<12]\<rparr>)))"

text \<open>
  The method: \<^verbatim>\<open>except Exception: pass\<close> ends every exception of the body. The result
  is \<open>Inl\<close> for an exception that leaves the method and \<open>Inr\<close> for a normal return.
\<close>

definition decode_and_show_imu :: "(nat \<Rightarrow> real) \<Rightarrow> byte list \<Rightarrow> app \<Rightarrow> error + app" where
  "decode_and_show_imu clock packet st =
     (case imu_try clock packet st of
        (Some e, st') \<Rightarrow> Inr st'
      | (None, st') \<Rightarrow> Inr st')"

subsection \<open>Command-response decoder (\<^verbatim>\<open>_decode_and_log_cmd\<close>, lines 441-456)\<close>

definition log_cmd :: "log_line \<Rightarrow> app \<Rightarrow> app" where
  "log_cmd message st = st\<lparr>txt_log := txt_log st @ [message]\<rparr>"

text \<open>
  The logged line \<open>RxRead addr header d0 d1 crc value\<close> stands for the text
  \<^verbatim>\<open>RX [READ Reg:0x..]: .. .. .. .. (Value_decimal=..)\<close>. Indexing a packet of fewer than
  four bytes raises \<^verbatim>\<open>IndexError\<close> before anything is logged.
\<close>

definition cmd_try :: "byte list \<Rightarrow> app \<Rightarrow> error option \<times> app" where
  "cmd_try packet st =
     (if length packet < 4 then (Some IndexError, st)
      else
        (let header = uint (packet ! 0);
             d0 = uint (packet ! 1);
             d1 = uint (packet ! 2);
             crc = uint (packet ! 3);
             addr = header AND 0x7F;
             value = d0 OR (push_bit 8 d1);
             value = (if value > 32767 then value - 65536 else value)
         in (None, log_cmd (RxRead addr header d0 d1 crc value) st)))"

definition decode_and_log_cmd :: "byte list \<Rightarrow> app \<Rightarrow> error + app" where
  "decode_and_log_cmd packet st =
     (case cmd_try packet st of
        (Some e, st') \<Rightarrow> Inr (log_cmd (DecodeCmdError e) st')
      | (None, st') \<Rightarrow> Inr st')"

subsection \<open>The stream parser (\<^verbatim>\<open>_read_serial_loop\<close>, lines 352-398)\<close>

abbreviation IMU_SIZE :: nat where "IMU_SIZE \<equiv> 37"
abbreviation CMD_SIZE :: nat where "CMD_SIZE \<equiv> 4"

text \<open>The check \<^verbatim>\<open>crc8_atm(packet[:-1]) == packet[-1]\<close> of lines 369 and 384.\<close>

definition crc_ok :: "byte list \<Rightarrow> bool" where
  "crc_ok packet = (crc8_atm (map uint (butlast packet)) = uint (last packet))"

text \<open>
  The inner loop, lines 362-394. \<open>Inr st\<close> is the state at a \<^verbatim>\<open>break\<close> or when the
  buffer is empty; \<open>Inl e\<close> is an exception on its way to the handler of line 397.
\<close>

function rx_while :: "(nat \<Rightarrow> real) \<Rightarrow> app \<Rightarrow> error + app" where
  "rx_while clock st =
     (if length (rx_buffer st) > 0 then
        if rx_buffer st ! 0 = 0xAA then
          if length (rx_buffer st) < 2 then Inr st
          else if rx_buffer st ! 1 = 0x55 then
            if length (rx_buffer st) < IMU_SIZE then Inr st
            else
              (let packet = take IMU_SIZE (rx_buffer st) in
               if crc_ok packet then
                 (case decode_and_show_imu clock packet
                         (st\<lparr>emitted := emitted st @ [ImuFrame packet]\<rparr>) of
                    Inl e \<Rightarrow> Inl e
                  | Inr st' \<Rightarrow>
                      rx_while clock (st'\<lparr>rx_buffer := drop IMU_SIZE (rx_buffer st')\<rparr>))
               else rx_while clock (st\<lparr>rx_buffer := drop 1 (rx_buffer st)\<rparr>))
          else rx_while clock (st\<lparr>rx_buffer := drop 1 (rx_buffer st)\<rparr>)
        else if (rx_buffer st ! 0) AND 0x80 = 0x00 then
          if length (rx_buffer st) < CMD_SIZE then Inr st
          else
            (let packet = take CMD_SIZE (rx_buffer st) in
             if crc_ok packet then
               (case decode_and_log_cmd packet
                       (st\<lparr>emitted := emitted st @ [CmdFrame packet]\<rparr>) of
                  Inl e \<Rightarrow> Inl e
                | Inr st' \<Rightarrow>
                    rx_while clock (st'\<lparr>rx_buffer := drop CMD_SIZE (rx_buffer st')\<rparr>))
             else rx_while clock (st\<lparr>rx_buffer := drop 1 (rx_buffer st)\<rparr>))
        else rx_while clock (st\<lparr>rx_buffer := drop 1 (rx_buffer st)\<rparr>)
      else Inr st)"
  by pat_completeness auto
termination
proof (relation "measure (\<lambda>(clock, st). length (rx_buffer st))")
  show "wf (measure (\<lambda>(clock, st). length (rx_buffer st)))" by simp
qed (auto simp: decode_and_show_imu_def imu_try_def decode_and_log_cmd_def cmd_try_def
       log_cmd_def Let_def split: if_splits sum.splits prod.splits option.splits)

declare rx_while.simps [simp del]

text \<open>
  One pass of the outer loop, lines 358-396, with \<open>data\<close> the bytes waiting at the port:
  nothing is done when there are none. \<open>read_serial_loop\<close> runs the passes for a
  sequence of arrivals; an exception ends it (line 397).
\<close>

definition read_serial_step :: "(nat \<Rightarrow> real) \<Rightarrow> byte list \<Rightarrow> app \<Rightarrow> error + app" where
  "read_serial_step clock data st =
     (if length data > 0 then rx_while clock (st\<lparr>rx_buffer := rx_buffer st @ data\<rparr>)
      else Inr st)"

fun read_serial_loop :: "(nat \<Rightarrow> real) \<Rightarrow> byte list list \<Rightarrow> app \<Rightarrow> error + app" where
  "read_serial_loop clock [] st = Inr st"
| "read_serial_loop clock (data # chunks) st =
     (case read_serial_step clock data st of
        Inl e \<Rightarrow> Inl e
      | Inr st' \<Rightarrow> read_serial_loop clock chunks st')"

text \<open>A clock for concrete runs: reading \<open>n\<close> is \<open>t0 + dt * n\<close>.\<close>

definition tick_clock :: "real \<Rightarrow> real \<Rightarrow> nat \<Rightarrow> real" where
  "tick_clock t0 dt n = t0 + dt * real n"

section \<open>Auxiliary definitions for the proofs\<close>

text \<open>
  The decision that one pass of the inner loop takes, as a function of the accumulator
  alone: stop and wait for more bytes, drop the first byte, or hand the leading packet
  to its decoder and remove it. \<open>rx_scan\<close> iterates the decision and returns the
  packets taken and the bytes left. Both are devices of the proofs; lemma
  \<open>rx_while_scan\<close> below proves that the loop of the program computes them.
\<close>

datatype action = Wait | Skip | Take frame

definition rx_action :: "byte list \<Rightarrow> action" where
  "rx_action buf =
     (if buf = [] then Wait
      else if buf ! 0 = 0xAA then
        (if length buf < 2 then Wait
         else if buf ! 1 = 0x55 then
           (if length buf < IMU_SIZE then Wait
            else if crc_ok (take IMU_SIZE buf) then Take (ImuFrame (take IMU_SIZE buf))
            else Skip)
         else Skip)
      else if (buf ! 0) AND 0x80 = 0x00 then
        (if length buf < CMD_SIZE then Wait
         else if crc_ok (take CMD_SIZE buf) then Take (CmdFrame (take CMD_SIZE buf))
         else Skip)
      else Skip)"

fun packet_of :: "frame \<Rightarrow> byte list" where
  "packet_of (ImuFrame p) = p"
| "packet_of (CmdFrame p) = p"

fun frame_ok :: "frame \<Rightarrow> bool" where
  "frame_ok (ImuFrame p) = (length p = IMU_SIZE \<and> crc_ok p)"
| "frame_ok (CmdFrame p) = (length p = CMD_SIZE \<and> crc_ok p)"

lemma rx_action_Take_less:
  "rx_action buf = Take f \<Longrightarrow> length buf - length (packet_of f) < length buf"
  by (auto simp: rx_action_def split: if_splits)

lemma rx_action_Skip: "rx_action buf = Skip \<Longrightarrow> buf \<noteq> []"
  by (auto simp: rx_action_def split: if_splits)

function rx_scan :: "byte list \<Rightarrow> frame list \<times> byte list" where
  "rx_scan buf =
     (case rx_action buf of
        Wait \<Rightarrow> ([], buf)
      | Skip \<Rightarrow> rx_scan (drop 1 buf)
      | Take f \<Rightarrow>
          (case rx_scan (drop (length (packet_of f)) buf) of
             (fs, rest) \<Rightarrow> (f # fs, rest)))"
  by pat_completeness auto
termination
proof (relation "measure length")
  show "wf (measure length)" by simp
next
  fix buf assume "rx_action buf = Skip"
  then show "(drop 1 buf, buf) \<in> measure length"
    using rx_action_Skip [of buf] by simp
next
  fix buf f assume "rx_action buf = Take f"
  then show "(drop (length (packet_of f)) buf, buf) \<in> measure length"
    using rx_action_Take_less [of buf f] by simp
qed

declare rx_scan.simps [simp del]

definition after_imu :: "(nat \<Rightarrow> real) \<Rightarrow> byte list \<Rightarrow> app \<Rightarrow> app" where
  "after_imu clock packet st = snd (imu_try clock packet st)"

definition after_cmd :: "byte list \<Rightarrow> app \<Rightarrow> app" where
  "after_cmd packet st =
     (case cmd_try packet st of
        (Some e, st') \<Rightarrow> log_cmd (DecodeCmdError e) st'
      | (None, st') \<Rightarrow> st')"

fun deliver :: "(nat \<Rightarrow> real) \<Rightarrow> frame \<Rightarrow> app \<Rightarrow> app" where
  "deliver clock (ImuFrame p) st = after_imu clock p (st\<lparr>emitted := emitted st @ [ImuFrame p]\<rparr>)"
| "deliver clock (CmdFrame p) st = after_cmd p (st\<lparr>emitted := emitted st @ [CmdFrame p]\<rparr>)"

text \<open>
  The packets taken and the bytes left over a sequence of arrivals, and the log line
  that the command-response decoder writes for a packet.
\<close>

fun scan_chunks :: "byte list \<Rightarrow> byte list list \<Rightarrow> frame list \<times> byte list" where
  "scan_chunks buf [] = ([], buf)"
| "scan_chunks buf (data # chunks) =
     (if length data > 0 then
        (case rx_scan (buf @ data) of
           (fs, rest) \<Rightarrow> (case scan_chunks rest chunks of (gs, rest') \<Rightarrow> (fs @ gs, rest')))
      else scan_chunks buf chunks)"

definition cmd_line :: "byte list \<Rightarrow> log_line" where
  "cmd_line packet =
     (if length packet < 4 then DecodeCmdError IndexError
      else
        (let header = uint (packet ! 0);
             d0 = uint (packet ! 1);
             d1 = uint (packet ! 2);
             crc = uint (packet ! 3);
             addr = header AND 0x7F;
             value = d0 OR (push_bit 8 d1);
             value = (if value > 32767 then value - 65536 else value)
         in RxRead addr header d0 d1 crc value))"

fun frame_lines :: "frame \<Rightarrow> log_line list" where
  "frame_lines (ImuFrame p) = []"
| "frame_lines (CmdFrame p) = [cmd_line p]"

text \<open>
  The three ways of rejecting the head of the accumulator, in the words of the
  specification; a frame that is valid at the head of the accumulator; and a run of
  bytes each of which is rejected when the loop reaches it, given the bytes \<open>tail\<close>
  that follow the run.
\<close>

definition rejects :: "byte list \<Rightarrow> bool" where
  "rejects buf =
     ((2 \<le> length buf \<and> buf ! 0 = 0xAA \<and> buf ! 1 \<noteq> 0x55)
      \<or> (IMU_SIZE \<le> length buf \<and> buf ! 0 = 0xAA \<and> buf ! 1 = 0x55
           \<and> \<not> crc_ok (take IMU_SIZE buf))
      \<or> (CMD_SIZE \<le> length buf \<and> (buf ! 0) AND 0x80 = 0x00
           \<and> \<not> crc_ok (take CMD_SIZE buf))
      \<or> (buf \<noteq> [] \<and> (buf ! 0) AND 0x80 \<noteq> 0x00 \<and> buf ! 0 \<noteq> 0xAA))"

fun valid_frame :: "frame \<Rightarrow> bool" where
  "valid_frame (ImuFrame p) =
     (length p = IMU_SIZE \<and> p ! 0 = 0xAA \<and> p ! 1 = 0x55 \<and> crc_ok p)"
| "valid_frame (CmdFrame p) =
     (length p = CMD_SIZE \<and> (p ! 0) AND 0x80 = 0x00 \<and> crc_ok p)"

primrec rejects_run :: "byte list \<Rightarrow> byte list \<Rightarrow> bool" where
  "rejects_run [] tail = True"
| "rejects_run (b # g) tail = (rejects (b # g @ tail) \<and> rejects_run g tail)"

text \<open>
  The eight values that the telemetry decoder displays for a 37-byte packet: the
  timestamp, then the three accelerations, the three rotation rates and the speed.
  Two telemetry frames for concrete runs, with timestamps 1000 and 1050.
\<close>

definition imu_values :: "byte list \<Rightarrow> field list" where
  "imu_values packet =
     U32 (le32 (take 4 (drop 4 packet)))
     # map (\<lambda>i. F32 (le32 (take 4 (drop (8 + 4 * i) packet)))) [0..<7]"

definition frame_A :: "byte list" where
  "frame_A =
     [0xAA, 0x55, 0x00, 0x00, 0xE8, 0x03, 0x00, 0x00, 0x00, 0x00, 0x80, 0x3F,
      0x00, 0x00, 0x00, 0x40, 0x00, 0x00, 0x40, 0x40, 0x00, 0x00, 0x80, 0x40,
      0x00, 0x00, 0xA0, 0x40, 0x00, 0x00, 0xC0, 0x40, 0x00, 0x00, 0xE0, 0x40, 0xB8]"

definition frame_B :: "byte list" where
  "frame_B =
     [0xAA, 0x55, 0x00, 0x00, 0x1A, 0x04, 0x00, 0x00, 0x00, 0x00, 0xE0, 0x40,
      0x00, 0x00, 0xC0, 0x40, 0x00, 0x00, 0xA0, 0x40, 0x00, 0x00, 0x80, 0x40,
      0x00, 0x00, 0x40, 0x40, 0x00, 0x00, 0x00, 0x40, 0x00, 0x00, 0x80, 0x3F, 0x88]"

section \<open>Properties of the CRC\<close>

lemma low8_take_bit: "(k::int) AND 0xFF = take_bit 8 k"
proof -
  have "(0xFF::int) = mask 8" by (simp add: mask_eq_exp_minus_1)
  then show ?thesis by (simp only: take_bit_eq_mask)
qed

lemma top_bit_uint: "(uint (c::byte) AND 0x80 \<noteq> 0) = bit c 7"
proof -
  have "(0x80::int) = 2 ^ 7" by simp
  then have "(uint c AND 0x80 = 0) = (\<not> bit (uint c) 7)"
    by (simp only: and_exp_eq_0_iff_not_bit)
  then show ?thesis by (simp add: bit_uint_iff)
qed

lemma shift_plain_uint: "push_bit n (uint (c::byte)) AND 0xFF = uint (push_bit n c)"
  unfolding low8_take_bit by (simp add: unsigned_push_bit_eq)

lemma shift_xor_uint:
  "(push_bit n (uint (c::byte)) XOR 0x07) AND 0xFF = uint (push_bit n c XOR 0x07)"
proof -
  have "take_bit 8 (7::int) = 7" by simp
  moreover have "uint (7::byte) = 7" by simp
  ultimately show ?thesis
    unfolding low8_take_bit
    by (simp only: take_bit_xor uint_xor shift_plain_uint [unfolded low8_take_bit])
qed

lemma crc8_shift_uint: "crc8_shift (uint c) = uint (spec_shift c)"
  unfolding crc8_shift_def spec_shift_def
  by (simp only: top_bit_uint shift_plain_uint shift_xor_uint
        if_distrib [of uint] if_distrib [of "\<lambda>k. k AND 0xFF"])

lemma crc8_bits_uint: "crc8_bits n (uint c) = uint (spec_shifts n c)"
  by (induction n arbitrary: c) (simp_all add: crc8_shift_uint)

lemma crc8_loop_uint: "crc8_loop (uint c) (map uint bs) = uint (spec_crc8_from c bs)"
  by (induction bs arbitrary: c) (simp_all add: crc8_bits_uint flip: uint_xor)

lemma crc8_atm_uint: "crc8_atm (map uint bs) = uint (spec_crc8 bs)"
  using crc8_loop_uint [of 0 bs] by (simp add: crc8_atm_def spec_crc8_def)

lemma crc8_atm_range:
  "0 \<le> crc8_atm (map uint (bs::byte list)) \<and> crc8_atm (map uint bs) < 256"
  using uint_lt2p [of "spec_crc8 bs"] by (simp add: crc8_atm_uint)

text \<open>
  Claim C9. \<^const>\<open>crc8_atm\<close> is a total function of the byte sequence, and on every byte
  sequence it computes the MSB-first CRC-8 with polynomial \<open>0x07\<close>, initial value
  \<open>0x00\<close>, no reflection and no final XOR, as the specification describes it on an
  8-bit accumulator; the CRC of the empty sequence is \<open>0x00\<close>, the CRC of
  \<open>[0x00, 0x00, 0x00]\<close> is \<open>0x00\<close> and the CRC of \<open>[0x01]\<close> is \<open>0x07\<close>.
\<close>

theorem crc8_atm_is_spec_crc8:
  "crc8_atm (map uint bs) = uint (spec_crc8 bs)
   \<and> crc8_atm [] = 0x00
   \<and> crc8_atm [0x00, 0x00, 0x00] = 0x00
   \<and> crc8_atm [0x01] = 0x07"
proof -
  have "crc8_atm [] = 0x00" by (simp add: crc8_atm_def)
  moreover have "crc8_atm [0x00, 0x00, 0x00] = 0x00" by code_simp
  moreover have "crc8_atm [0x01] = 0x07" by code_simp
  ultimately show ?thesis by (simp only: crc8_atm_uint simp_thms)
qed

section \<open>The loop and its decisions\<close>

lemma rx_action_Take:
  "rx_action buf = Take f \<Longrightarrow>
     frame_ok f \<and> packet_of f = take (length (packet_of f)) buf
     \<and> length (packet_of f) \<le> length buf \<and> 0 < length (packet_of f)"
  by (auto simp: rx_action_def split: if_splits)

lemma rx_scan_Wait: "rx_action buf = Wait \<Longrightarrow> rx_scan buf = ([], buf)"
  by (simp add: rx_scan.simps)

lemma rx_scan_Skip: "rx_action buf = Skip \<Longrightarrow> rx_scan buf = rx_scan (drop 1 buf)"
  by (simp add: rx_scan.simps)

lemma rx_scan_Take:
  "rx_action buf = Take f \<Longrightarrow>
     rx_scan buf = (f # fst (rx_scan (drop (length (packet_of f)) buf)),
                    snd (rx_scan (drop (length (packet_of f)) buf)))"
  by (simp add: rx_scan.simps split: prod.splits)

lemma rx_scan_frames_ok: "list_all frame_ok (fst (rx_scan buf))"
proof (induction buf rule: rx_scan.induct)
  case (1 buf)
  show ?case
  proof (cases "rx_action buf")
    case Wait
    then show ?thesis by (simp add: rx_scan_Wait)
  next
    case Skip
    with "1.IH"(1) show ?thesis by (simp add: rx_scan_Skip)
  next
    case (Take f)
    with "1.IH"(2) [OF Take] rx_action_Take [OF Take] show ?thesis
      by (simp add: rx_scan_Take)
  qed
qed

lemma rx_action_append:
  assumes nw: "rx_action buf \<noteq> Wait"
  shows "rx_action (buf @ xs) = rx_action buf"
proof (cases buf)
  case Nil
  with nw show ?thesis by (simp add: rx_action_def)
next
  case (Cons b bs)
  have h0: "(buf @ xs) ! 0 = buf ! 0" using Cons by simp
  have h1: "2 \<le> length buf \<Longrightarrow> (buf @ xs) ! 1 = buf ! 1" by (simp add: nth_append)
  have ht: "\<And>n. n \<le> length buf \<Longrightarrow> take n (buf @ xs) = take n buf" by simp
  have ne: "buf @ xs \<noteq> []" "buf \<noteq> []" using Cons by simp_all
  show ?thesis
  proof (cases "buf ! 0 = 0xAA")
    case True
    show ?thesis
    proof (cases "length buf < 2")
      case True
      with \<open>buf ! 0 = 0xAA\<close> ne nw show ?thesis by (simp add: rx_action_def)
    next
      case False
      show ?thesis
      proof (cases "buf ! 1 = 0x55")
        case b1: True
        show ?thesis
        proof (cases "length buf < IMU_SIZE")
          case True
          with b1 \<open>buf ! 0 = 0xAA\<close> \<open>\<not> length buf < 2\<close> ne nw show ?thesis by (simp add: rx_action_def)
        next
          case False
          with b1 \<open>buf ! 0 = 0xAA\<close> \<open>\<not> length buf < 2\<close> ne h0 h1 ht [of IMU_SIZE] show ?thesis
            by (simp add: rx_action_def)
        qed
      next
        case False
        with \<open>buf ! 0 = 0xAA\<close> \<open>\<not> length buf < 2\<close> ne h0 h1 show ?thesis
          by (simp add: rx_action_def)
      qed
    qed
  next
    case nAA: False
    show ?thesis
    proof (cases "buf ! 0 AND 0x80 = 0")
      case True
      show ?thesis
      proof (cases "length buf < CMD_SIZE")
        case True
        with nAA \<open>buf ! 0 AND 0x80 = 0\<close> ne nw show ?thesis by (simp add: rx_action_def)
      next
        case False
        with nAA \<open>buf ! 0 AND 0x80 = 0\<close> ne h0 ht [of CMD_SIZE] show ?thesis
          by (simp add: rx_action_def)
      qed
    next
      case False
      with nAA ne h0 show ?thesis by (simp add: rx_action_def)
    qed
  qed
qed

lemma rx_scan_rest_Wait: "rx_action (snd (rx_scan buf)) = Wait"
proof (induction buf rule: rx_scan.induct)
  case (1 buf)
  show ?case
  proof (cases "rx_action buf")
    case Wait
    then show ?thesis by (simp add: rx_scan_Wait)
  next
    case Skip
    with "1.IH"(1) show ?thesis by (simp add: rx_scan_Skip)
  next
    case (Take f)
    with "1.IH"(2) [OF Take] show ?thesis
      by (simp add: rx_scan_Take)
  qed
qed

lemma rx_scan_append:
  "rx_scan (buf @ xs) =
     (fst (rx_scan buf) @ fst (rx_scan (snd (rx_scan buf) @ xs)),
      snd (rx_scan (snd (rx_scan buf) @ xs)))"
proof (induction buf rule: rx_scan.induct)
  case (1 buf)
  show ?case
  proof (cases "rx_action buf")
    case Wait
    then show ?thesis by (simp add: rx_scan_Wait)
  next
    case Skip
    then have ne: "buf \<noteq> []" by (rule rx_action_Skip)
    from Skip have "rx_action (buf @ xs) = Skip" using rx_action_append [of buf xs] by simp
    then have "rx_scan (buf @ xs) = rx_scan (drop 1 buf @ xs)"
      using ne by (cases buf) (simp_all add: rx_scan_Skip)
    with "1.IH"(1) [OF Skip] Skip show ?thesis by (simp add: rx_scan_Skip)
  next
    case (Take f)
    note T = rx_action_Take [OF Take]
    from Take have "rx_action (buf @ xs) = Take f" using rx_action_append [of buf xs] by simp
    then have "rx_scan (buf @ xs) =
        (f # fst (rx_scan (drop (length (packet_of f)) buf @ xs)),
         snd (rx_scan (drop (length (packet_of f)) buf @ xs)))"
      using T by (simp add: rx_scan_Take)
    with "1.IH"(2) [OF Take] Take show ?thesis by (simp add: rx_scan_Take)
  qed
qed

lemma decode_and_show_imu_Inr:
  "decode_and_show_imu clock packet st = Inr (after_imu clock packet st)"
  by (simp add: decode_and_show_imu_def after_imu_def split: prod.splits option.splits)

lemma decode_and_log_cmd_Inr:
  "decode_and_log_cmd packet st = Inr (after_cmd packet st)"
  by (simp add: decode_and_log_cmd_def after_cmd_def split: prod.splits option.splits)

lemma after_imu_rx_buffer:
  "after_imu clock p (st\<lparr>rx_buffer := b\<rparr>) = (after_imu clock p st)\<lparr>rx_buffer := b\<rparr>"
  by (simp add: after_imu_def imu_try_def Let_def split: sum.splits)

lemma after_cmd_rx_buffer:
  "after_cmd p (st\<lparr>rx_buffer := b\<rparr>) = (after_cmd p st)\<lparr>rx_buffer := b\<rparr>"
  by (simp add: after_cmd_def cmd_try_def log_cmd_def Let_def)

lemma deliver_rx_buffer:
  "deliver clock f (st\<lparr>rx_buffer := b\<rparr>) = (deliver clock f st)\<lparr>rx_buffer := b\<rparr>"
  by (cases f)
     (simp_all add: after_imu_def imu_try_def after_cmd_def cmd_try_def log_cmd_def Let_def
        split: sum.splits)

lemma rx_buffer_after_imu: "rx_buffer (after_imu clock p st) = rx_buffer st"
  by (simp add: after_imu_def imu_try_def Let_def split: sum.splits)

lemma rx_buffer_after_cmd: "rx_buffer (after_cmd p st) = rx_buffer st"
  by (simp add: after_cmd_def cmd_try_def log_cmd_def Let_def)

lemma rx_buffer_deliver: "rx_buffer (deliver clock f st) = rx_buffer st"
  by (cases f) (simp_all add: rx_buffer_after_imu rx_buffer_after_cmd)

lemma fold_deliver_rx_buffer:
  "fold (deliver clock) fs (st\<lparr>rx_buffer := b\<rparr>) = (fold (deliver clock) fs st)\<lparr>rx_buffer := b\<rparr>"
  by (induction fs arbitrary: st) (simp_all add: deliver_rx_buffer)

lemma rx_while_Wait: "rx_action (rx_buffer st) = Wait \<Longrightarrow> rx_while clock st = Inr st"
  by (subst rx_while.simps) (simp add: rx_action_def split: if_splits)

lemma rx_while_Skip:
  "rx_action (rx_buffer st) = Skip \<Longrightarrow>
     rx_while clock st = rx_while clock (st\<lparr>rx_buffer := drop 1 (rx_buffer st)\<rparr>)"
  by (subst rx_while.simps) (simp add: rx_action_def split: if_splits)

lemma rx_while_Take:
  "rx_action (rx_buffer st) = Take f \<Longrightarrow>
     rx_while clock st =
       rx_while clock ((deliver clock f st)\<lparr>rx_buffer := drop (length (packet_of f)) (rx_buffer st)\<rparr>)"
  by (subst rx_while.simps)
     (auto simp: rx_action_def decode_and_show_imu_Inr decode_and_log_cmd_Inr
        rx_buffer_after_imu rx_buffer_after_cmd split: if_splits)

lemma rx_while_scan:
  "rx_buffer st = buf \<Longrightarrow>
     rx_while clock st =
       Inr ((fold (deliver clock) (fst (rx_scan buf)) st)\<lparr>rx_buffer := snd (rx_scan buf)\<rparr>)"
proof (induction buf arbitrary: st rule: rx_scan.induct)
  case (1 buf)
  show ?case
  proof (cases "rx_action buf")
    case Wait
    with "1.prems" show ?thesis by (simp add: rx_scan_Wait rx_while_Wait)
  next
    case Skip
    have "rx_while clock st = rx_while clock (st\<lparr>rx_buffer := drop 1 buf\<rparr>)"
      using Skip "1.prems" rx_while_Skip [of st clock] by simp
    also have "\<dots> = Inr ((fold (deliver clock) (fst (rx_scan (drop 1 buf)))
                            (st\<lparr>rx_buffer := drop 1 buf\<rparr>))\<lparr>rx_buffer := snd (rx_scan (drop 1 buf))\<rparr>)"
      by (rule "1.IH"(1) [OF Skip]) simp
    finally show ?thesis using Skip by (simp add: rx_scan_Skip fold_deliver_rx_buffer)
  next
    case (Take f)
    let ?n = "length (packet_of f)"
    let ?st = "(deliver clock f st)\<lparr>rx_buffer := drop ?n buf\<rparr>"
    have "rx_while clock st = rx_while clock ?st"
      using Take "1.prems" rx_while_Take [of st f clock] by simp
    also have "\<dots> = Inr ((fold (deliver clock) (fst (rx_scan (drop ?n buf))) ?st)
                           \<lparr>rx_buffer := snd (rx_scan (drop ?n buf))\<rparr>)"
      by (rule "1.IH"(2) [OF Take]) simp
    finally show ?thesis using Take by (simp add: rx_scan_Take fold_deliver_rx_buffer)
  qed
qed

section \<open>What a run of the loop emits\<close>

lemma emitted_deliver: "emitted (deliver clock f st) = emitted st @ [f]"
  by (cases f)
     (simp_all add: after_imu_def imu_try_def after_cmd_def cmd_try_def log_cmd_def Let_def
        split: sum.splits)

lemma txt_log_deliver: "txt_log (deliver clock f st) = txt_log st @ frame_lines f"
  by (cases f)
     (simp_all add: after_imu_def imu_try_def after_cmd_def cmd_try_def log_cmd_def cmd_line_def
        Let_def split: sum.splits)

lemma emitted_fold_deliver: "emitted (fold (deliver clock) fs st) = emitted st @ fs"
  by (induction fs arbitrary: st) (simp_all add: emitted_deliver)

lemma txt_log_fold_deliver:
  "txt_log (fold (deliver clock) fs st) = txt_log st @ concat (map frame_lines fs)"
  by (induction fs arbitrary: st) (simp_all add: txt_log_deliver)

lemma read_serial_step_scan:
  "read_serial_step clock data st =
     Inr (if length data > 0
          then (fold (deliver clock) (fst (rx_scan (rx_buffer st @ data))) st)
                 \<lparr>rx_buffer := snd (rx_scan (rx_buffer st @ data))\<rparr>
          else st)"
  using rx_while_scan [of "st\<lparr>rx_buffer := rx_buffer st @ data\<rparr>" "rx_buffer st @ data" clock]
  by (simp add: read_serial_step_def fold_deliver_rx_buffer)

lemma read_serial_loop_scan:
  "read_serial_loop clock chunks st =
     Inr ((fold (deliver clock) (fst (scan_chunks (rx_buffer st) chunks)) st)
            \<lparr>rx_buffer := snd (scan_chunks (rx_buffer st) chunks)\<rparr>)"
proof (induction chunks arbitrary: st)
  case Nil
  show ?case by simp
next
  case (Cons data chunks)
  show ?case
  proof (cases "length data > 0")
    case False
    then show ?thesis using Cons.IH [of st] by (simp add: read_serial_step_scan)
  next
    case True
    obtain fs rest where sc: "rx_scan (rx_buffer st @ data) = (fs, rest)" by fastforce
    let ?st = "(fold (deliver clock) fs st)\<lparr>rx_buffer := rest\<rparr>"
    have "read_serial_loop clock (data # chunks) st = read_serial_loop clock chunks ?st"
      using True sc by (simp add: read_serial_step_scan)
    also have "\<dots> = Inr ((fold (deliver clock) (fst (scan_chunks rest chunks)) ?st)
            \<lparr>rx_buffer := snd (scan_chunks rest chunks)\<rparr>)"
      using Cons.IH [of ?st] by simp
    finally show ?thesis using True sc
      by (simp add: fold_deliver_rx_buffer split: prod.splits)
  qed
qed

lemma scan_chunks_frames_ok: "list_all frame_ok (fst (scan_chunks buf chunks))"
proof (induction chunks arbitrary: buf)
  case Nil
  show ?case by simp
next
  case (Cons data chunks)
  show ?case
    using rx_scan_frames_ok [of "buf @ data"] Cons.IH [of buf]
      Cons.IH [of "snd (rx_scan (buf @ data))"]
    by (simp add: case_prod_beta)
qed

text \<open>
  Claim C1. Whatever the state and whatever the sequence of arriving chunks, the loop
  ends normally, keeps the packets it had handed to the decoders before, and every
  packet it hands to a decoder during the run has the length of its kind (37 bytes for
  telemetry, 4 for a command response) and passes the check: the CRC-8 of all its bytes
  but the last equals the last byte.
\<close>

theorem emitted_frames_pass_crc:
  "case read_serial_loop clock chunks st of
     Inl e \<Rightarrow> False
   | Inr st' \<Rightarrow>
       take (length (emitted st)) (emitted st') = emitted st
       \<and> list_all frame_ok (drop (length (emitted st)) (emitted st'))"
  by (simp add: read_serial_loop_scan emitted_fold_deliver scan_chunks_frames_ok)

theorem emitted_frames_pass_crc_witness:
  "case read_serial_loop (tick_clock 0 1) [[0x01, 0x0C], [0xFE, 0x63]] init_app of
     Inl e \<Rightarrow> False
   | Inr st' \<Rightarrow>
       take (length (emitted init_app)) (emitted st') = emitted init_app
       \<and> list_all frame_ok (drop (length (emitted init_app)) (emitted st'))"
  by (rule emitted_frames_pass_crc)

lemma scan_chunks_single_bytes:
  "scan_chunks buf (map (\<lambda>b. [b]) bs) = (if bs = [] then ([], buf) else rx_scan (buf @ bs))"
proof (induction bs arbitrary: buf)
  case Nil
  show ?case by simp
next
  case (Cons b bs)
  obtain fs rest where sc: "rx_scan (buf @ [b]) = (fs, rest)" by fastforce
  show ?case
  proof (cases "bs = []")
    case True
    then show ?thesis using sc by simp
  next
    case False
    have "rx_scan (buf @ b # bs) = rx_scan ((buf @ [b]) @ bs)" by simp
    also have "\<dots> = (fs @ fst (rx_scan (rest @ bs)), snd (rx_scan (rest @ bs)))"
      using sc by (subst rx_scan_append) simp
    finally show ?thesis using False sc Cons.IH [of rest] by (simp add: case_prod_beta)
  qed
qed

text \<open>
  Claim C3. From any state and for any byte sequence, feeding the bytes one per pass
  and feeding them in a single pass both end normally, with the same packets handed to
  the decoders in the same order, the same decoded command responses in the log and the
  same bytes left in the accumulator, whatever the clocks of the two runs read.
\<close>

theorem one_byte_chunks_same_frames:
  "case (read_serial_loop clock (map (\<lambda>b. [b]) bs) st, read_serial_step clock' bs st) of
     (Inr s1, Inr s2) \<Rightarrow>
       emitted s1 = emitted s2 \<and> txt_log s1 = txt_log s2 \<and> rx_buffer s1 = rx_buffer s2
   | _ \<Rightarrow> False"
  by (simp add: read_serial_loop_scan read_serial_step_scan scan_chunks_single_bytes
        emitted_fold_deliver txt_log_fold_deliver)

section \<open>Resynchronisation\<close>

lemma AA_high_bit: "(0xAA::byte) AND 0x80 \<noteq> 0"
  by simp

lemma rejects_iff_Skip: "rejects buf = (rx_action buf = Skip)"
proof (cases "buf = []")
  case True
  then show ?thesis by (simp add: rejects_def rx_action_def)
next
  case ne: False
  show ?thesis
  proof (cases "buf ! 0 = 0xAA")
    case True
    then show ?thesis using ne AA_high_bit
      by (auto simp: rejects_def rx_action_def)
  next
    case False
    then show ?thesis using ne
      by (auto simp: rejects_def rx_action_def)
  qed
qed

lemma valid_frame_Take:
  "valid_frame f \<Longrightarrow> rx_action (packet_of f @ rest) = Take f"
proof (cases f)
  case (ImuFrame p)
  assume "valid_frame f"
  with ImuFrame have v: "length p = IMU_SIZE" "p ! 0 = 0xAA" "p ! 1 = 0x55" "crc_ok p" by simp_all
  then have "p \<noteq> []" by auto
  with v ImuFrame show ?thesis by (simp add: rx_action_def nth_append)
next
  case (CmdFrame p)
  assume "valid_frame f"
  with CmdFrame have v: "length p = CMD_SIZE" "(p ! 0) AND 0x80 = 0" "crc_ok p" by simp_all
  then have ne: "p \<noteq> []" by auto
  have "p ! 0 \<noteq> 0xAA" using v(2) AA_high_bit by auto
  with v ne CmdFrame show ?thesis by (simp add: rx_action_def nth_append)
qed

lemma rx_while_rejects:
  "rejects (rx_buffer st) \<Longrightarrow>
     rx_while clock st = rx_while clock (st\<lparr>rx_buffer := drop 1 (rx_buffer st)\<rparr>)"
  by (simp add: rejects_iff_Skip rx_while_Skip)

lemma rx_scan_rejects_run:
  "rejects_run g tail \<Longrightarrow> rx_scan (g @ tail) = rx_scan tail"
  by (induction g) (simp_all add: rejects_iff_Skip rx_scan_Skip)

lemma rx_scan_valid_frame:
  "valid_frame f \<Longrightarrow> fst (rx_scan (packet_of f @ rest)) = f # fst (rx_scan rest)"
  using valid_frame_Take [of f rest] by (simp add: rx_scan_Take)

text \<open>
  Claim C4, as amended. Whenever the loop rejects the head of the accumulator (leading
  \<open>0xAA\<close> followed by a byte other than \<open>0x55\<close>, a 37-byte or 4-byte candidate
  that fails the CRC check, or a leading byte with the high bit set other than
  \<open>0xAA\<close>), it continues exactly as it would on the accumulator without its first
  byte: one byte is removed, nothing is handed to a decoder, the rest of the candidate
  stays. Hence a valid frame that follows a run of rejected positions is the next packet
  handed to a decoder.
\<close>

theorem reject_drops_one_byte:
  "(rejects (rx_buffer st) \<longrightarrow>
      rx_while clock st = rx_while clock (st\<lparr>rx_buffer := drop 1 (rx_buffer st)\<rparr>))
   \<and> (rejects_run g (packet_of f @ rest) \<and> valid_frame f \<longrightarrow>
        (case rx_while clock (st\<lparr>rx_buffer := g @ packet_of f @ rest\<rparr>) of
           Inl e \<Rightarrow> False
         | Inr st' \<Rightarrow> take (Suc (length (emitted st))) (emitted st') = emitted st @ [f]))"
proof (intro conjI impI)
  assume "rejects (rx_buffer st)"
  then show "rx_while clock st = rx_while clock (st\<lparr>rx_buffer := drop 1 (rx_buffer st)\<rparr>)"
    by (rule rx_while_rejects)
next
  assume a: "rejects_run g (packet_of f @ rest) \<and> valid_frame f"
  let ?buf = "g @ packet_of f @ rest"
  have "fst (rx_scan ?buf) = f # fst (rx_scan rest)"
    using a by (simp add: rx_scan_rejects_run rx_scan_valid_frame)
  then show "case rx_while clock (st\<lparr>rx_buffer := ?buf\<rparr>) of
           Inl e \<Rightarrow> False
         | Inr st' \<Rightarrow> take (Suc (length (emitted st))) (emitted st') = emitted st @ [f]"
    using rx_while_scan [of "st\<lparr>rx_buffer := ?buf\<rparr>" ?buf clock]
    by (simp add: emitted_fold_deliver emitted_deliver fold_deliver_rx_buffer deliver_rx_buffer)
qed

lemma crc_ok_0100: "\<not> crc_ok [0x00, 0x01, 0x00, 0x00]" by code_simp

lemma crc_ok_1006B: "crc_ok [0x01, 0x00, 0x00, 0x6B]" by code_simp

lemma crc_ok_006B16: "crc_ok [0x00, 0x00, 0x6B, 0x16]" by code_simp

text \<open>
  The claim as stated promises more: that any valid frame starting inside the rejected
  bytes is emitted later. In the accumulator \<open>00 01 00 00 6B 16\<close> the first byte is
  rejected (the candidate \<open>00 01 00 00\<close> fails its CRC), the loop then accepts
  \<open>01 00 00 6B\<close>, and the valid frame \<open>00 00 6B 16\<close> that starts at the third byte
  of the rejected candidate is never handed to a decoder: three of its four bytes are
  consumed.
\<close>

theorem overlapped_frame_lost:
  "rejects [0x00, 0x01, 0x00, 0x00, 0x6B, 0x16]
   \<and> valid_frame (CmdFrame (drop 2 [0x00, 0x01, 0x00, 0x00, 0x6B, 0x16]))
   \<and> read_serial_step (tick_clock 0 1) [0x00, 0x01, 0x00, 0x00, 0x6B, 0x16] init_app
       = Inr (init_app\<lparr>rx_buffer := [0x16],
                txt_log := [RxRead 0x01 0x01 0x00 0x00 0x6B 0],
                emitted := [CmdFrame [0x01, 0x00, 0x00, 0x6B]]\<rparr>)"
proof -
  have "rejects [0x00, 0x01, 0x00, 0x00, 0x6B, 0x16]"
    by (simp add: rejects_def crc_ok_0100)
  moreover have "valid_frame (CmdFrame (drop 2 [0x00, 0x01, 0x00, 0x00, 0x6B, 0x16]))"
    by (simp add: crc_ok_006B16)
  moreover have "read_serial_step (tick_clock 0 1) [0x00, 0x01, 0x00, 0x00, 0x6B, 0x16] init_app
       = Inr (init_app\<lparr>rx_buffer := [0x16],
                txt_log := [RxRead 0x01 0x01 0x00 0x00 0x6B 0],
                emitted := [CmdFrame [0x01, 0x00, 0x00, 0x6B]]\<rparr>)"
    by (simp add: read_serial_step_def init_app_def rx_while.simps crc_ok_0100 crc_ok_1006B
          decode_and_log_cmd_def cmd_try_def log_cmd_def)
  ultimately show ?thesis by (simp only: simp_thms)
qed

theorem reject_drops_one_byte_witness:
  "(rejects (rx_buffer (init_app\<lparr>rx_buffer := [0x00, 0x01, 0x00, 0x00, 0x6B, 0x16]\<rparr>))
    \<and> rx_while (tick_clock 0 1) (init_app\<lparr>rx_buffer := [0x00, 0x01, 0x00, 0x00, 0x6B, 0x16]\<rparr>)
        = rx_while (tick_clock 0 1)
            (init_app\<lparr>rx_buffer := [0x00, 0x01, 0x00, 0x00, 0x6B, 0x16]\<rparr>
               \<lparr>rx_buffer :=
                  drop 1 (rx_buffer (init_app\<lparr>rx_buffer := [0x00, 0x01, 0x00, 0x00, 0x6B, 0x16]\<rparr>))\<rparr>))
   \<and> (rejects_run [0x00] (packet_of (CmdFrame [0x01, 0x00, 0x00, 0x6B]) @ [0x16])
        \<and> valid_frame (CmdFrame [0x01, 0x00, 0x00, 0x6B])
        \<and> (case rx_while (tick_clock 0 1)
                   (init_app\<lparr>rx_buffer := [0x00, 0x01, 0x00, 0x00, 0x6B, 0x16]\<rparr>
                      \<lparr>rx_buffer := [0x00] @ packet_of (CmdFrame [0x01, 0x00, 0x00, 0x6B]) @ [0x16]\<rparr>) of
              Inl e \<Rightarrow> False
            | Inr st' \<Rightarrow>
                take (Suc (length (emitted (init_app\<lparr>rx_buffer := [0x00, 0x01, 0x00, 0x00, 0x6B, 0x16]\<rparr>))))
                  (emitted st')
                = emitted (init_app\<lparr>rx_buffer := [0x00, 0x01, 0x00, 0x00, 0x6B, 0x16]\<rparr>)
                  @ [CmdFrame [0x01, 0x00, 0x00, 0x6B]]))"
proof -
  have r: "rejects (rx_buffer (init_app\<lparr>rx_buffer := [0x00, 0x01, 0x00, 0x00, 0x6B, 0x16]\<rparr>))"
    by (simp add: rejects_def crc_ok_0100)
  have v: "valid_frame (CmdFrame [0x01, 0x00, 0x00, 0x6B])"
    by (simp add: crc_ok_1006B)
  have rr: "rejects_run [0x00] (packet_of (CmdFrame [0x01, 0x00, 0x00, 0x6B]) @ [0x16])"
    by (simp add: rejects_def crc_ok_0100)
  show ?thesis
    using r v rr
      reject_drops_one_byte [of "init_app\<lparr>rx_buffer := [0x00, 0x01, 0x00, 0x00, 0x6B, 0x16]\<rparr>"
        "tick_clock 0 1" "[0x00]" "CmdFrame [0x01, 0x00, 0x00, 0x6B]" "[0x16]"]
    by blast
qed

section \<open>The encoder\<close>

lemma crc8_shift_bounds: "0 \<le> crc8_shift crc \<and> crc8_shift crc < 256"
proof -
  have "0 \<le> take_bit 8 k \<and> take_bit 8 k < 256" for k :: int
    using take_bit_int_less_exp [of 8 k] by simp
  then show ?thesis
    unfolding crc8_shift_def low8_take_bit by blast
qed

lemma crc8_bits_bounds:
  "0 \<le> crc \<and> crc < 256 \<Longrightarrow> 0 \<le> crc8_bits n crc \<and> crc8_bits n crc < 256"
  by (induction n arbitrary: crc) (simp_all add: crc8_shift_bounds)

lemma crc8_bits_8_bounds: "0 \<le> crc8_bits 8 crc \<and> crc8_bits 8 crc < 256"
proof -
  have "crc8_bits 8 crc = crc8_bits 7 (crc8_shift crc)"
    by (simp add: eval_nat_numeral)
  then show ?thesis using crc8_bits_bounds [OF crc8_shift_bounds] by simp
qed

lemma crc8_loop_bounds:
  "0 \<le> crc \<and> crc < 256 \<Longrightarrow> 0 \<le> crc8_loop crc data \<and> crc8_loop crc data < 256"
proof (induction data arbitrary: crc)
  case Nil
  then show ?case by simp
next
  case (Cons byte data)
  show ?case using Cons.IH [OF crc8_bits_8_bounds] by simp
qed

lemma crc8_atm_bounds: "0 \<le> crc8_atm data \<and> crc8_atm data < 256"
  unfolding crc8_atm_def by (rule crc8_loop_bounds) simp

lemma low7_mod: "(k::int) AND 0x7F = k mod 128"
proof -
  have "(0x7F::int) = mask 7" by (simp add: mask_eq_exp_minus_1)
  then show ?thesis by (simp only: take_bit_eq_mask [symmetric] take_bit_eq_mod) simp
qed

lemma low8_mod: "(k::int) AND 0xFF = k mod 256"
  unfolding low8_take_bit by (simp add: take_bit_eq_mod)

lemma high8_div: "drop_bit 8 (k::int) AND 0xFF = (k div 256) mod 256"
  unfolding low8_mod by (simp add: drop_bit_eq_div)

lemma header_sum:
  "(if r then (0x80::int) else 0x00) OR (k AND 0x7F) = (if r then 128 else 0) + k mod 128"
proof -
  have "take_bit n k AND (2 ^ n :: int) = 0" for n
    by (simp add: and_exp_eq_0_iff_not_bit bit_take_bit_iff)
  then have "(2 ^ n :: int) AND take_bit n k = 0" for n
    by (simp add: and.commute)
  then have "(2 ^ n :: int) + take_bit n k = 2 ^ n OR take_bit n k" for n
    by (rule disjunctive_add_eq_or)
  from this [of 7] have "(0x80::int) OR (k mod 128) = 128 + k mod 128"
    by (simp add: take_bit_eq_mod)
  then show ?thesis by (simp add: low7_mod)
qed

lemma header_bounds:
  "0 \<le> (if r then (0x80::int) else 0x00) OR (k AND 0x7F)
   \<and> (if r then (0x80::int) else 0x00) OR (k AND 0x7F) < 256"
proof -
  have "k mod 128 < 128" by simp
  then have "k mod 128 < 256" by linarith
  then show ?thesis unfolding header_sum by simp
qed

lemma low8_bounds: "0 \<le> (k::int) AND 0xFF \<and> k AND 0xFF < 256"
  unfolding low8_mod by simp

lemma uint_byte_of_int: "0 \<le> k \<and> k < 256 \<Longrightarrow> uint (word_of_int k :: byte) = k"
  by (simp add: uint_word_of_int)

lemma encode_frame_Inr:
  "encode_frame reg is_read v =
     Inr (map word_of_int
           [(if is_read then 0x80 else 0x00) OR (reg AND 0x7F),
            v AND 0xFF,
            (if is_read then 0x00 else drop_bit 8 v AND 0xFF),
            crc8_atm [(if is_read then 0x80 else 0x00) OR (reg AND 0x7F),
                      v AND 0xFF,
                      (if is_read then 0x00 else drop_bit 8 v AND 0xFF)]])"
  using header_bounds [of is_read reg] low8_bounds [of v] low8_bounds [of "drop_bit 8 v"]
    crc8_atm_bounds [of "[(if is_read then 0x80 else 0x00) OR (reg AND 0x7F), v AND 0xFF,
                      (if is_read then 0x00 else drop_bit 8 v AND 0xFF)]"]
  by (simp add: encode_frame_def bytearray_def Let_def)

text \<open>
  Claim C7. For every register, mode and integer value the encoder returns normally
  (it raises nothing) exactly four bytes: the header \<open>(0x80 if is_read else 0x00) |
  (register & 0x7F)\<close>, the low byte \<open>value & 0xFF\<close>, then \<open>0x00\<close> for a read and
  \<open>(value >> 8) & 0xFF\<close> for a write, and the CRC-8 of these three. Each of the four
  is in \<open>0..255\<close>, so the conversion to bytes changes nothing, and the masks keep the
  low bits only: the register modulo 128, the value modulo 256 and the next eight bits
  of the value.
\<close>

theorem encode_frame_layout:
  "encode_frame reg is_read v =
     Inr (map word_of_int
           [(if is_read then 0x80 else 0x00) OR (reg AND 0x7F),
            v AND 0xFF,
            (if is_read then 0x00 else drop_bit 8 v AND 0xFF),
            crc8_atm [(if is_read then 0x80 else 0x00) OR (reg AND 0x7F),
                      v AND 0xFF,
                      (if is_read then 0x00 else drop_bit 8 v AND 0xFF)]])
   \<and> map uint (map word_of_int
           [(if is_read then 0x80 else 0x00) OR (reg AND 0x7F),
            v AND 0xFF,
            (if is_read then 0x00 else drop_bit 8 v AND 0xFF),
            crc8_atm [(if is_read then 0x80 else 0x00) OR (reg AND 0x7F),
                      v AND 0xFF,
                      (if is_read then 0x00 else drop_bit 8 v AND 0xFF)]] :: byte list)
       = [(if is_read then 128 else 0) + reg mod 128,
          v mod 256,
          (if is_read then 0 else (v div 256) mod 256),
          crc8_atm [(if is_read then 128 else 0) + reg mod 128,
                    v mod 256,
                    (if is_read then 0 else (v div 256) mod 256)]]"
proof -
  have h: "(if is_read then (0x80::int) else 0x00) OR (reg AND 0x7F)
           = (if is_read then 128 else 0) + reg mod 128"
    by (rule header_sum)
  have d1: "(if is_read then 0x00 else drop_bit 8 v AND 0xFF)
            = (if is_read then 0 else (v div 256) mod 256)"
    by (simp add: high8_div)
  have hb: "0 \<le> (if is_read then 128 else 0) + reg mod 128
            \<and> (if is_read then 128 else 0) + reg mod 128 < 256"
    using header_bounds [of is_read reg] unfolding h .
  have cb: "0 \<le> crc8_atm data \<and> crc8_atm data < 256" for data
    by (rule crc8_atm_bounds)
  have lb: "0 \<le> k mod 256 \<and> k mod 256 < 256" for k :: int
    by simp
  have db: "0 \<le> (if is_read then 0 else (v div 256) mod 256)
            \<and> (if is_read then 0 else (v div 256) mod 256) < 256"
    by simp
  show ?thesis
    unfolding encode_frame_Inr h d1
    unfolding low8_mod
    by (simp only: list.map uint_byte_of_int [OF hb] uint_byte_of_int [OF cb]
          uint_byte_of_int [OF lb] uint_byte_of_int [OF db] simp_thms)
qed

section \<open>The command-response decoder\<close>

lemma sint16_cases:
  fixes w :: "16 word"
  shows "sint w = (if uint w > 32767 then uint w - 65536 else uint w)"
proof -
  have b: "0 \<le> uint w" "uint w < 65536" using uint_lt2p [of w] by simp_all
  have "sint w = take_bit 16 (uint w + 2 ^ 15) - 2 ^ 15"
    by (simp add: sint_uint signed_take_bit_eq_take_bit_shift)
  also have "\<dots> = (uint w + 32768) mod 65536 - 32768"
    by (simp add: take_bit_eq_mod)
  also have "\<dots> = (if uint w > 32767 then uint w - 65536 else uint w)"
  proof (cases "uint w > 32767")
    case True
    have "uint w + 32768 = (uint w - 32768) + 65536" by simp
    then have "(uint w + 32768) mod 65536 = (uint w - 32768) mod 65536"
      by (simp only: mod_add_self2)
    also have "\<dots> = uint w - 32768"
      using True b by (intro mod_pos_pos_trivial) simp_all
    finally have "(uint w + 32768) mod 65536 = uint w - 32768" .
    with True show ?thesis by simp
  next
    case False
    then have "(uint w + 32768) mod 65536 = uint w + 32768"
      using b by (intro mod_pos_pos_trivial) simp_all
    with False show ?thesis by simp
  qed
  finally show ?thesis .
qed

lemma uint_word_cat_bytes:
  fixes d0 d1 :: byte
  shows "uint (word_cat d1 d0 :: 16 word) = uint d0 OR push_bit 8 (uint d1)"
proof -
  have t16: "take_bit 16 (uint d) = uint d" for d :: byte
  proof (rule take_bit_int_eq_self)
    show "0 \<le> uint d" by simp
    have "uint d < 256" using uint_lt2p [of d] by simp
    then show "uint d < 2 ^ 16" by simp
  qed
  have t8: "take_bit 8 (uint d) = uint d" for d :: byte
    using uint_lt2p [of d] by (simp add: take_bit_int_eq_self)
  have "(word_cat d1 d0 :: 16 word) = push_bit 8 (ucast d1) OR ucast d0"
    by (simp add: word_cat_eq_push_bit_or)
  then have "uint (word_cat d1 d0 :: 16 word)
             = take_bit 16 (push_bit 8 (uint d1)) OR uint d0"
    by (simp add: uint_or unsigned_push_bit_eq unsigned_ucast_eq t16)
  also have "take_bit 16 (push_bit 8 (uint d1)) = push_bit 8 (take_bit 8 (uint d1))"
    by (simp add: take_bit_push_bit)
  finally show ?thesis by (simp add: or.commute t8)
qed

lemma cmd_value_sint:
  fixes d0 d1 :: byte
  shows "(let v = uint d0 OR push_bit 8 (uint d1) in if v > 32767 then v - 65536 else v)
         = sint (word_cat d1 d0 :: 16 word)"
  by (simp add: sint16_cases uint_word_cat_bytes Let_def)

lemma decode_and_log_cmd_4:
  "decode_and_log_cmd [header, d0, d1, crc] st =
     Inr (log_cmd (RxRead (uint header AND 0x7F) (uint header) (uint d0) (uint d1) (uint crc)
                     (sint (word_cat d1 d0 :: 16 word))) st)"
  using cmd_value_sint [of d0 d1]
  by (simp add: decode_and_log_cmd_def cmd_try_def Let_def)

lemma crc_ok_response: "crc_ok [0x01, 0x0C, 0xFE, 0x63]"
  by code_simp

text \<open>
  Claim C6. For every 4-byte frame \<open>[header, dataLow, dataHigh, crc]\<close>, validated or
  not, the decoder returns normally and logs the register \<open>header & 0x7F\<close> and the
  value \<open>dataLow | (dataHigh << 8)\<close> read as a 16-bit two's complement number, that is,
  less 65536 when it is 32768 or more. The synthetic response with header \<open>0x01\<close> and
  the data bytes \<open>0x0C, 0xFE\<close> of \<open>-500\<close> has the correct CRC \<open>0x63\<close> and decodes to
  register 1 and value \<open>-500\<close>.
\<close>

theorem cmd_response_decoded:
  "decode_and_log_cmd [header, dataLow, dataHigh, crc] st =
     Inr (log_cmd (RxRead (uint header AND 0x7F) (uint header) (uint dataLow) (uint dataHigh)
                     (uint crc) (sint (word_cat dataHigh dataLow :: 16 word))) st)
   \<and> sint (word_cat dataHigh dataLow :: 16 word) =
       (let v = uint dataLow OR push_bit 8 (uint dataHigh)
        in if v \<ge> 32768 then v - 65536 else v)
   \<and> (- 500 :: int) AND 0xFF = 0x0C \<and> drop_bit 8 (- 500 :: int) AND 0xFF = 0xFE
   \<and> crc_ok [0x01, 0x0C, 0xFE, 0x63]
   \<and> decode_and_log_cmd [0x01, 0x0C, 0xFE, 0x63] st =
       Inr (log_cmd (RxRead 0x01 0x01 0x0C 0xFE 0x63 (- 500)) st)"
proof -
  have ge: "(32768 \<le> k) = (32767 < k)" for k :: int by linarith
  have v: "sint (word_cat dataHigh dataLow :: 16 word) =
       (let v = uint dataLow OR push_bit 8 (uint dataHigh)
        in if v \<ge> 32768 then v - 65536 else v)"
    unfolding ge by (rule cmd_value_sint [symmetric])
  have lo: "(- 500 :: int) AND 0xFF = 0x0C" unfolding low8_mod by simp
  have hi: "drop_bit 8 (- 500 :: int) AND 0xFF = 0xFE"
    unfolding low8_mod by (simp add: drop_bit_eq_div)
  have c: "decode_and_log_cmd [0x01, 0x0C, 0xFE, 0x63] st =
       Inr (log_cmd (RxRead 0x01 0x01 0x0C 0xFE 0x63 (- 500)) st)"
    by (simp add: decode_and_log_cmd_def cmd_try_def)
  show ?thesis
    using v lo hi c crc_ok_response decode_and_log_cmd_4 [of header dataLow dataHigh crc st]
    by (simp only: simp_thms)
qed

section \<open>A write request read back as a response\<close>

lemma encode_write_500: "encode_frame 0x01 False (- 500) = Inr [0x01, 0x0C, 0xFE, 0x63]"
proof -
  have "crc8_atm [0x01, 0x0C, 0xFE] = 0x63" by code_simp
  moreover have "(- 500 :: int) AND 0xFF = 0x0C" unfolding low8_mod by simp
  moreover have "drop_bit 8 (- 500 :: int) AND 0xFF = 0xFE"
    unfolding low8_mod by (simp add: drop_bit_eq_div)
  moreover have "(0x00::int) OR (0x01 AND 0x7F) = 0x01"
    using header_sum [of False 1] by simp
  ultimately show ?thesis
    by (simp add: encode_frame_def bytearray_def Let_def)
qed

lemma read_response_500:
  "read_serial_step clock [0x01, 0x0C, 0xFE, 0x63] (st\<lparr>rx_buffer := []\<rparr>) =
     Inr ((log_cmd (RxRead 0x01 0x01 0x0C 0xFE 0x63 (- 500)) st)
            \<lparr>rx_buffer := [], emitted := emitted st @ [CmdFrame [0x01, 0x0C, 0xFE, 0x63]]\<rparr>)"
  by (simp add: read_serial_step_def rx_while.simps crc_ok_response
        decode_and_log_cmd_def cmd_try_def log_cmd_def)

lemma top_bit_byte: "((c::byte) AND 0x80 = 0) = (\<not> bit c 7)"
proof -
  have "(0x80::byte) = 2 ^ 7" by simp
  then show ?thesis by (simp only: and_exp_eq_0_iff_not_bit)
qed

lemma write_frame_valid:
  "case encode_frame reg False v of Inl e \<Rightarrow> False | Inr fr \<Rightarrow> valid_frame (CmdFrame fr)"
proof -
  let ?h = "(0x00::int) OR (reg AND 0x7F)"
  let ?b0 = "v AND 0xFF"
  let ?b1 = "drop_bit 8 v AND 0xFF"
  let ?c = "crc8_atm [?h, ?b0, ?b1]"
  let ?fr = "map word_of_int [?h, ?b0, ?b1, ?c] :: byte list"
  have enc: "encode_frame reg False v = Inr ?fr"
    using encode_frame_Inr [of reg False v] by simp
  have hb: "0 \<le> ?h \<and> ?h < 256" using header_bounds [of False reg] by simp
  have h128: "?h = reg mod 128" using header_sum [of False reg] by simp
  have uh: "uint (word_of_int ?h :: byte) = ?h" by (rule uint_byte_of_int [OF hb])
  have u0: "uint (word_of_int ?b0 :: byte) = ?b0" by (rule uint_byte_of_int [OF low8_bounds])
  have u1: "uint (word_of_int ?b1 :: byte) = ?b1" by (rule uint_byte_of_int [OF low8_bounds])
  have uc: "uint (word_of_int ?c :: byte) = ?c" by (rule uint_byte_of_int [OF crc8_atm_bounds])
  have "take_bit n reg AND (2 ^ n :: int) = 0" for n
    by (simp add: and_exp_eq_0_iff_not_bit bit_take_bit_iff)
  from this [of 7] have "?h AND 0x80 = 0" unfolding h128 by (simp add: take_bit_eq_mod)
  then have "uint (word_of_int ?h :: byte) AND 0x80 = 0" by (simp only: uh)
  then have "\<not> bit (word_of_int ?h :: byte) 7" using top_bit_uint by blast
  then have top: "(word_of_int ?h :: byte) AND 0x80 = 0" using top_bit_byte by blast
  have bl: "butlast ?fr = map word_of_int [?h, ?b0, ?b1]" by simp
  have la: "last ?fr = word_of_int ?c" by simp
  have crc: "crc_ok ?fr"
    unfolding crc_ok_def bl la by (simp only: list.map uh u0 u1 uc)
  show ?thesis
    unfolding enc using top crc by simp
qed

text \<open>
  Claim C5, as amended. The four bytes that the encoder produces for register \<open>0x01\<close>,
  write mode and value \<open>-500\<close> are \<open>01 0C FE 63\<close>; fed as one chunk to an empty
  accumulator they are handed to the command-response decoder as exactly one frame,
  logged with register 1 and value \<open>-500\<close>, and the accumulator is empty again. The
  same holds for every write request: its header has bit 7 clear and its CRC is
  correct, so the loop takes it for a response.
\<close>

theorem write_request_read_as_response:
  "encode_frame 0x01 False (- 500) = Inr [0x01, 0x0C, 0xFE, 0x63]
   \<and> read_serial_step clock [0x01, 0x0C, 0xFE, 0x63] (st\<lparr>rx_buffer := []\<rparr>) =
       Inr ((log_cmd (RxRead 0x01 0x01 0x0C 0xFE 0x63 (- 500)) st)
              \<lparr>rx_buffer := [], emitted := emitted st @ [CmdFrame [0x01, 0x0C, 0xFE, 0x63]]\<rparr>)
   \<and> (case encode_frame reg False v of
          Inl e \<Rightarrow> False
        | Inr fr \<Rightarrow> valid_frame (CmdFrame fr))"
  using encode_write_500 read_response_500 [of clock st] write_frame_valid [of reg v]
  by (simp only: simp_thms)

text \<open>
  The claim as stated, that these bytes do not yield a command-response frame, fails:
  from the initial state the run hands exactly this frame to the decoder.
\<close>

theorem write_request_yields_response:
  "case encode_frame 0x01 False (- 500) of
     Inl e \<Rightarrow> False
   | Inr fr \<Rightarrow>
       (case read_serial_step (tick_clock 0 1) fr init_app of
          Inl e \<Rightarrow> False
        | Inr s \<Rightarrow>
            emitted s = [CmdFrame fr]
            \<and> txt_log s = [RxRead 0x01 0x01 0x0C 0xFE 0x63 (- 500)])"
proof -
  have "init_app\<lparr>rx_buffer := []\<rparr> = init_app" by (simp add: init_app_def)
  then show ?thesis
    using read_response_500 [of "tick_clock 0 1" init_app]
    by (simp add: encode_write_500 log_cmd_def init_app_def)
qed

section \<open>An empty data field\<close>

lemma strip_empty: "strip [] = []"
  by (simp add: strip_def)

lemma py_int_zero: "py_int 10 (strip ''0'') = Inr 0"
  by (simp add: py_int_def strip_def is_space_def digit_value_def)

lemma strip_zero: "strip ''0'' \<noteq> []"
  by (simp add: strip_def is_space_def)

lemma encode_zero:
  "encode_frame reg is_read 0 =
     Inr (map word_of_int
            [(if is_read then 0x80 else 0x00) OR (reg AND 0x7F), 0x00, 0x00,
             crc8_atm [(if is_read then 0x80 else 0x00) OR (reg AND 0x7F), 0x00, 0x00]])"
  using encode_frame_Inr [of reg is_read 0] by simp

text \<open>
  Claim C10. With the data field empty the frame builder does exactly what it does
  with the data field \<open>0\<close>, whatever the connection flag, the register field and the
  mode; when connected and the register field parses to \<open>reg\<close>, it writes the frame
  \<open>[header, 0x00, 0x00, crc8([header, 0x00, 0x00])]\<close> with
  \<open>header = (0x80 if is_read else 0x00) | (reg & 0x7F)\<close>.
\<close>

theorem empty_data_encodes_zero:
  "send_frame is_connected entry_reg is_read [] = send_frame is_connected entry_reg is_read ''0''
   \<and> send_frame True entry_reg is_read [] =
       (case py_int 16 (strip entry_reg) of
          Inl e \<Rightarrow> FormatInvalid
        | Inr reg \<Rightarrow>
            Written (map word_of_int
              [(if is_read then 0x80 else 0x00) OR (reg AND 0x7F), 0x00, 0x00,
               crc8_atm [(if is_read then 0x80 else 0x00) OR (reg AND 0x7F), 0x00, 0x00]]))"
proof -
  have z: "(if strip ''0'' \<noteq> [] then py_int 10 (strip ''0'') else Inr 0) = Inr 0"
    by (simp add: py_int_zero)
  have e: "(if strip [] \<noteq> [] then py_int 10 (strip []) else Inr 0) = Inr 0"
    by (simp add: strip_empty)
  have same: "send_frame is_connected entry_reg is_read []
              = send_frame is_connected entry_reg is_read ''0''"
    unfolding send_frame_def Let_def z e ..
  have "send_frame True entry_reg is_read [] =
       (case py_int 16 (strip entry_reg) of
          Inl e \<Rightarrow> FormatInvalid
        | Inr reg \<Rightarrow>
            Written (map word_of_int
              [(if is_read then 0x80 else 0x00) OR (reg AND 0x7F), 0x00, 0x00,
               crc8_atm [(if is_read then 0x80 else 0x00) OR (reg AND 0x7F), 0x00, 0x00]]))"
    unfolding send_frame_def Let_def e
    by (simp add: encode_zero split: sum.splits)
  with same show ?thesis by (simp only: simp_thms)
qed

section \<open>The telemetry decoder\<close>

lemma struct_unpack_fails_iff: "isl (struct_unpack packet) = (length packet \<noteq> 37)"
  by (simp add: struct_unpack_def)

lemma upt_4_12: "[4..<12] = [4, 5, 6, 7, 8, 9, 10, 11]"
  by (simp add: upt_rec)

lemma upt_0_7: "[0..<7] = [0, 1, 2, 3, 4, 5, 6]"
  by (simp add: upt_rec)

lemma upt_0_4: "[0..<4] = [0, 1, 2, 3]"
  by (simp add: upt_rec)

lemma struct_unpack_values:
  "length packet = 37 \<Longrightarrow>
     (case struct_unpack packet of
        Inl e \<Rightarrow> False
      | Inr unpacked \<Rightarrow> map (\<lambda>i. unpacked ! i) [4..<12] = imu_values packet)"
  by (simp add: struct_unpack_def imu_values_def upt_4_12 upt_0_7 upt_0_4)

lemma after_imu_eq:
  "after_imu clock packet st =
     (if clock (time_calls st) - last_imu_update st < 0.1
      then st\<lparr>time_calls := Suc (time_calls st)\<rparr>
      else if length packet = 37
      then st\<lparr>time_calls := Suc (time_calls st), last_imu_update := clock (time_calls st),
                txt_imu := imu_values packet\<rparr>
      else st\<lparr>time_calls := Suc (time_calls st), last_imu_update := clock (time_calls st)\<rparr>)"
proof (cases "length packet = 37")
  case True
  from struct_unpack_values [OF True] obtain unpacked where
    u: "struct_unpack packet = Inr unpacked"
       "map (\<lambda>i. unpacked ! i) [4..<12] = imu_values packet"
    by (auto split: sum.splits)
  show ?thesis using True u by (simp add: after_imu_def imu_try_def Let_def)
next
  case False
  then have "struct_unpack packet = Inl StructError" by (simp add: struct_unpack_def)
  with False show ?thesis by (simp add: after_imu_def imu_try_def Let_def)
qed

text \<open>
  Claim C8, as amended. The unpacking step fails when, and only when, the packet is
  not 37 bytes long, but the decoder never fails towards its caller: it always returns
  normally. When fewer than 100 ms have passed since the last display it returns
  before unpacking, whatever the length; otherwise a 37-byte packet is decoded and
  displayed, and a packet of any other length changes neither the display nor the log,
  only the time of the last update.
\<close>

theorem imu_decoder_swallows_length_error:
  "isl (struct_unpack packet) = (length packet \<noteq> 37)
   \<and> decode_and_show_imu clock packet st =
       Inr (if clock (time_calls st) - last_imu_update st < 0.1
            then st\<lparr>time_calls := Suc (time_calls st)\<rparr>
            else if length packet = 37
            then st\<lparr>time_calls := Suc (time_calls st),
                      last_imu_update := clock (time_calls st),
                      txt_imu := imu_values packet\<rparr>
            else st\<lparr>time_calls := Suc (time_calls st),
                      last_imu_update := clock (time_calls st)\<rparr>)"
  by (simp only: struct_unpack_fails_iff decode_and_show_imu_Inr after_imu_eq simp_thms)

text \<open>
  The claim as stated fails on the empty packet: its length is not 37, the time is
  due, and the decoder returns normally with the display and the log untouched.
\<close>

theorem imu_decoder_wrong_length_silent:
  "decode_and_show_imu (tick_clock 1000 1) [] init_app =
     Inr (init_app\<lparr>last_imu_update := 1000, time_calls := 1\<rparr>)"
  by (simp add: decode_and_show_imu_Inr after_imu_eq init_app_def tick_clock_def)

section \<open>The rate limit of the telemetry display\<close>

lemma crc_ok_frame_A: "crc_ok frame_A"
  by code_simp

lemma crc_ok_frame_B: "crc_ok frame_B"
  by code_simp

lemma valid_frame_A: "valid_frame (ImuFrame frame_A)"
  using crc_ok_frame_A by (simp add: frame_A_def)

lemma valid_frame_B: "valid_frame (ImuFrame frame_B)"
  using crc_ok_frame_B by (simp add: frame_B_def)

lemma imu_values_A:
  "imu_values frame_A =
     [U32 1000, F32 0x3F800000, F32 0x40000000, F32 0x40400000,
      F32 0x40800000, F32 0x40A00000, F32 0x40C00000, F32 0x40E00000]"
  by (simp add: imu_values_def frame_A_def upt_0_7)

lemma imu_values_B:
  "imu_values frame_B =
     [U32 1050, F32 0x40E00000, F32 0x40C00000, F32 0x40A00000,
      F32 0x40800000, F32 0x40400000, F32 0x40000000, F32 0x3F800000]"
  by (simp add: imu_values_def frame_B_def upt_0_7)

lemma rx_scan_two_frames:
  "valid_frame f \<Longrightarrow> valid_frame g \<Longrightarrow> rx_scan (packet_of f @ packet_of g) = ([f, g], [])"
proof -
  assume f: "valid_frame f" and g: "valid_frame g"
  have e: "rx_scan [] = ([], [])" by (simp add: rx_scan_Wait rx_action_def)
  have "rx_scan (packet_of g) = ([g], [])"
    using valid_frame_Take [OF g, of "[]"] e by (simp add: rx_scan_Take)
  then show ?thesis
    using valid_frame_Take [OF f, of "packet_of g"] by (simp add: rx_scan_Take)
qed

text \<open>
  Claim C2, as amended. Every 37-byte telemetry frame that stands at the head of the
  accumulator and passes the CRC check is handed to the telemetry decoder and removed
  from the accumulator, whatever the time. The decoder decodes and displays it only
  when at least 100 ms have passed since the last displayed frame; otherwise the frame
  is dropped undecoded and the display keeps the older values.
\<close>

theorem telemetry_display_rate_limited:
  "valid_frame (ImuFrame p) \<longrightarrow>
     rx_while clock (st\<lparr>rx_buffer := p @ rest\<rparr>) =
       rx_while clock
         ((if clock (time_calls st) - last_imu_update st < 0.1
           then st\<lparr>time_calls := Suc (time_calls st)\<rparr>
           else st\<lparr>time_calls := Suc (time_calls st),
                    last_imu_update := clock (time_calls st),
                    txt_imu := imu_values p\<rparr>)
          \<lparr>emitted := emitted st @ [ImuFrame p], rx_buffer := rest\<rparr>)"
proof
  assume v: "valid_frame (ImuFrame p)"
  then have len: "length p = 37" by simp
  have "rx_action (rx_buffer (st\<lparr>rx_buffer := p @ rest\<rparr>)) = Take (ImuFrame p)"
    using valid_frame_Take [OF v, of rest] by simp
  then have "rx_while clock (st\<lparr>rx_buffer := p @ rest\<rparr>) =
      rx_while clock ((deliver clock (ImuFrame p) (st\<lparr>rx_buffer := p @ rest\<rparr>))
        \<lparr>rx_buffer := drop (length (packet_of (ImuFrame p)))
                         (rx_buffer (st\<lparr>rx_buffer := p @ rest\<rparr>))\<rparr>)"
    by (rule rx_while_Take)
  also have "(deliver clock (ImuFrame p) (st\<lparr>rx_buffer := p @ rest\<rparr>))
        \<lparr>rx_buffer := drop (length (packet_of (ImuFrame p)))
                         (rx_buffer (st\<lparr>rx_buffer := p @ rest\<rparr>))\<rparr>
      = (if clock (time_calls st) - last_imu_update st < 0.1
           then st\<lparr>time_calls := Suc (time_calls st)\<rparr>
           else st\<lparr>time_calls := Suc (time_calls st),
                    last_imu_update := clock (time_calls st),
                    txt_imu := imu_values p\<rparr>)
          \<lparr>emitted := emitted st @ [ImuFrame p], rx_buffer := rest\<rparr>"
    using len by (simp add: after_imu_eq)
  finally show "rx_while clock (st\<lparr>rx_buffer := p @ rest\<rparr>) =
       rx_while clock
         ((if clock (time_calls st) - last_imu_update st < 0.1
           then st\<lparr>time_calls := Suc (time_calls st)\<rparr>
           else st\<lparr>time_calls := Suc (time_calls st),
                    last_imu_update := clock (time_calls st),
                    txt_imu := imu_values p\<rparr>)
          \<lparr>emitted := emitted st @ [ImuFrame p], rx_buffer := rest\<rparr>)" .
qed

theorem telemetry_display_rate_limited_witness:
  "valid_frame (ImuFrame frame_A)
   \<and> rx_while (tick_clock 1000 0.05) (init_app\<lparr>rx_buffer := frame_A @ frame_B\<rparr>) =
       rx_while (tick_clock 1000 0.05)
         ((if tick_clock 1000 0.05 (time_calls init_app) - last_imu_update init_app < 0.1
           then init_app\<lparr>time_calls := Suc (time_calls init_app)\<rparr>
           else init_app\<lparr>time_calls := Suc (time_calls init_app),
                    last_imu_update := tick_clock 1000 0.05 (time_calls init_app),
                    txt_imu := imu_values frame_A\<rparr>)
          \<lparr>emitted := emitted init_app @ [ImuFrame frame_A], rx_buffer := frame_B\<rparr>)"
  using valid_frame_A
    telemetry_display_rate_limited [where p = frame_A and clock = "tick_clock 1000 0.05"
      and st = init_app and rest = frame_B]
  by blast

text \<open>
  The claim as stated fails when two valid frames arrive within 100 ms. With the clock
  reading 1000 s at the first decoder call and 1000.05 s at the second, both frames
  are handed to the decoder, but only the first is decoded and displayed: the second,
  with timestamp 1050, never reaches the display.
\<close>

theorem second_frame_not_displayed:
  "valid_frame (ImuFrame frame_A) \<and> valid_frame (ImuFrame frame_B)
   \<and> imu_values frame_A \<noteq> imu_values frame_B
   \<and> read_serial_step (tick_clock 1000 0.05) (frame_A @ frame_B) init_app =
       Inr (init_app\<lparr>last_imu_update := 1000,
                      txt_imu := imu_values frame_A,
                      emitted := [ImuFrame frame_A, ImuFrame frame_B],
                      time_calls := 2\<rparr>)"
proof -
  have ne: "imu_values frame_A \<noteq> imu_values frame_B"
    by (simp add: imu_values_A imu_values_B)
  have sc: "rx_scan (frame_A @ frame_B) = ([ImuFrame frame_A, ImuFrame frame_B], [])"
    using rx_scan_two_frames [OF valid_frame_A valid_frame_B] by simp
  have la: "length frame_A = 37" by (simp add: frame_A_def)
  have lb: "length frame_B = 37" by (simp add: frame_B_def)
  have nonempty: "0 < length (frame_A @ frame_B)" using la by simp
  have run: "read_serial_step (tick_clock 1000 0.05) (frame_A @ frame_B) init_app =
       Inr (init_app\<lparr>last_imu_update := 1000,
                      txt_imu := imu_values frame_A,
                      emitted := [ImuFrame frame_A, ImuFrame frame_B],
                      time_calls := 2\<rparr>)"
    unfolding read_serial_step_scan
    using nonempty sc la lb
    by (simp add: init_app_def after_imu_eq tick_clock_def)
  show ?thesis using valid_frame_A valid_frame_B ne run by (simp only: simp_thms)
qed

end
